theory Spec2Isabelle
  imports Complex_Main
begin

section \<open>Message chunking: \<open>TelegramNotifier._split_message\<close>\<close>

text \<open>
  A Python \<open>str\<close> is modelled as a \<open>string\<close>, one \<open>char\<close> for each character of the
  message; \<open>len\<close> is \<open>length\<close>.  The chunking code looks at a character only to
  compare it with the line feed.
\<close>

definition MAX_MESSAGE_LENGTH :: nat where
  "MAX_MESSAGE_LENGTH = 4096"

definition newline :: char where
  "newline = CHR 0x0A"

text \<open>
  \<open>message.split('\n')\<close>: the pieces between line feeds, in order; a message with
  \<open>n\<close> line feeds has \<open>n + 1\<close> pieces, and the empty message has the single piece \<open>''\<close>.
\<close>

fun split_nl :: "string \<Rightarrow> string list" where
  "split_nl [] = [[]]"
| "split_nl (c # cs) =
     (if c = newline then [] # split_nl cs
      else (c # hd (split_nl cs)) # tl (split_nl cs))"

text \<open>\<open>range(start, stop, step)\<close> for a positive step (a zero step raises in Python;
  the only caller passes \<open>MAX_MESSAGE_LENGTH - 100\<close>).\<close>

function py_range :: "nat \<Rightarrow> nat \<Rightarrow> nat \<Rightarrow> nat list" where
  "py_range i stop step =
     (if step = 0 then []
      else if i < stop then i # py_range (i + step) stop step
      else [])"
  by pat_completeness auto
termination
  by (relation "measure (\<lambda>(i, stop, step). stop - i)") auto

declare py_range.simps [simp del]

text \<open>The slice \<open>line[i:j]\<close> for \<open>0 \<le> i \<le> j\<close>; Python clamps both ends to the string.\<close>

definition slice :: "string \<Rightarrow> nat \<Rightarrow> nat \<Rightarrow> string" where
  "slice line i j = take (j - i) (drop i line)"

text \<open>The inner loop of the over-long branch: the pieces appended for one line.\<close>

definition hard_split :: "string \<Rightarrow> string list" where
  "hard_split line =
     map (\<lambda>i. slice line i (i + MAX_MESSAGE_LENGTH - 100))
         (py_range 0 (length line) (MAX_MESSAGE_LENGTH - 100))"

text \<open>
  One iteration of \<open>for line in lines\<close>, on the pair \<open>(chunks, current_chunk)\<close>.  The
  three branches are those of the source, in its order; \<open>if current_chunk\<close> is the test
  that the string is not empty.
\<close>

fun split_step :: "string list \<times> string \<Rightarrow> string \<Rightarrow> string list \<times> string" where
  "split_step (chunks, current_chunk) line =
     (if length line > MAX_MESSAGE_LENGTH then
        (if current_chunk \<noteq> []
         then ((chunks @ [current_chunk]) @ hard_split line, [])
         else (chunks @ hard_split line, current_chunk))
      else if length current_chunk + length line + 1 > MAX_MESSAGE_LENGTH then
        (chunks @ [current_chunk], line)
      else
        (chunks, current_chunk @ (if current_chunk \<noteq> [] then [newline] else []) @ line))"

definition split_message :: "string \<Rightarrow> string list" where
  "split_message message =
     (if length message \<le> MAX_MESSAGE_LENGTH then [message]
      else
        (case foldl split_step ([], []) (split_nl message) of
           (chunks, current_chunk) \<Rightarrow>
             if current_chunk \<noteq> [] then chunks @ [current_chunk] else chunks))"


text \<open>The loop invariant of the chunking: no finished chunk and no pending chunk is
  longer than the limit.\<close>

definition chunks_ok :: "string list \<times> string \<Rightarrow> bool" where
  "chunks_ok s \<longleftrightarrow>
     (\<forall>c \<in> set (fst s). length c \<le> MAX_MESSAGE_LENGTH) \<and> length (snd s) \<le> MAX_MESSAGE_LENGTH"


text \<open>The characters collected so far, line feeds aside: those of the finished chunks,
  then those of the pending chunk.\<close>

definition text_of :: "string list \<times> string \<Rightarrow> string" where
  "text_of s = filter (\<lambda>c. c \<noteq> newline) (concat (fst s) @ snd s)"


section \<open>Delivery: \<open>TelegramNotifier.send_message\<close>\<close>

text \<open>
  An exception is a value.  \<open>TelegramError\<close> is the class the inner handler catches; every
  other subclass of \<open>Exception\<close> that the transport call can raise is \<open>OtherException\<close>.
  Both carry \<open>str(e)\<close>.
\<close>

datatype exn = TelegramError string | OtherException string

text \<open>
  \<open>str.lower\<close>, character by character: the letters \<open>A\<close> to \<open>Z\<close> become \<open>a\<close> to \<open>z\<close>; other
  characters are left as they are, which is all the search for the lower-case text
  \<open>can't parse\<close> depends on.
\<close>

definition lower_char :: "char \<Rightarrow> char" where
  "lower_char c =
     (case map_of (zip ''ABCDEFGHIJKLMNOPQRSTUVWXYZ'' ''abcdefghijklmnopqrstuvwxyz'') c of
        Some l \<Rightarrow> l
      | None \<Rightarrow> c)"

fun starts_with :: "string \<Rightarrow> string \<Rightarrow> bool" where
  "starts_with [] s = True"
| "starts_with (p # ps) [] = False"
| "starts_with (p # ps) (c # cs) = (p = c \<and> starts_with ps cs)"

text \<open>The substring test \<open>pat in s\<close>.\<close>

fun contains :: "string \<Rightarrow> string \<Rightarrow> bool" where
  "contains pat [] = (pat = [])"
| "contains pat (c # cs) = (starts_with pat (c # cs) \<or> contains pat cs)"

text \<open>The test \<open>"can't parse" in str(e).lower()\<close> of the inner handler.\<close>

definition cant_parse :: "string \<Rightarrow> bool" where
  "cant_parse text = contains (''can'' @ [CHR 0x27] @ ''t parse'') (map lower_char text)"

text \<open>
  The transport, \<open>self.bot.send_message\<close>: what the \<open>k\<close>-th call of a run (counted from 0)
  does with a text and a parse mode, either returning or raising.  Chat id and preview flag
  are the same in every call of a run and are left out.
\<close>

type_synonym transport = "nat \<Rightarrow> string \<Rightarrow> string option \<Rightarrow> exn + unit"

text \<open>
  What a run does, in order: a transport call, made by the first \<open>send_message\<close> call of
  the loop body (\<open>Primary\<close>) or by the one in the handler (\<open>Fallback\<close>) during iteration
  \<open>i\<close>, with its text, parse mode and outcome; or \<open>asyncio.sleep(s)\<close>.
\<close>

datatype call_site = Primary | Fallback

datatype event = Call call_site nat string "string option" "exn + unit" | Sleep nat

text \<open>
  The loop \<open>for i, chunk in enumerate(chunks)\<close> from iteration \<open>i\<close> on, \<open>k\<close> transport
  calls having been made and \<open>n = len(chunks)\<close>.  The result is \<open>Inr ()\<close> when the loop
  ends and \<open>Inl e\<close> when \<open>e\<close> leaves the loop; with it, the events in order.  The pause
  stands after the first call inside the \<open>try\<close>, so an exception of that call skips it.
\<close>

fun deliver ::
  "transport \<Rightarrow> string option \<Rightarrow> nat \<Rightarrow> nat \<Rightarrow> nat \<Rightarrow> string list \<Rightarrow> (exn + unit) \<times> event list"
where
  "deliver bot_send parse_mode n i k [] = (Inr (), [])"
| "deliver bot_send parse_mode n i k (chunk # rest) =
     (case bot_send k chunk parse_mode of
        Inr u \<Rightarrow>
          (case deliver bot_send parse_mode n (i + 1) (k + 1) rest of
             (r, tr) \<Rightarrow>
               (r, Call Primary i chunk parse_mode (Inr u)
                     # (if int i < int n - 1 then [Sleep 1] else []) @ tr))
      | Inl (OtherException e) \<Rightarrow>
          (Inl (OtherException e), [Call Primary i chunk parse_mode (Inl (OtherException e))])
      | Inl (TelegramError e) \<Rightarrow>
          (if cant_parse e then
             (case bot_send (k + 1) chunk None of
                Inr u \<Rightarrow>
                  (case deliver bot_send parse_mode n (i + 1) (k + 2) rest of
                     (r, tr) \<Rightarrow>
                       (r, Call Primary i chunk parse_mode (Inl (TelegramError e))
                             # Call Fallback i chunk None (Inr u) # tr))
              | Inl e' \<Rightarrow>
                  (Inl e', [Call Primary i chunk parse_mode (Inl (TelegramError e)),
                            Call Fallback i chunk None (Inl e')]))
           else
             (Inl (TelegramError e), [Call Primary i chunk parse_mode (Inl (TelegramError e))])))"

text \<open>
  \<open>send_message\<close>: the outer \<open>try\<close> turns the end of the loop into \<open>return True\<close> and any
  exception into \<open>return False\<close>.  The result is a sum so that "nothing is raised" is a
  statement about the value: \<open>Inl\<close> would be an exception reaching the caller.
\<close>

definition send_message :: "transport \<Rightarrow> string \<Rightarrow> string option \<Rightarrow> (exn + bool) \<times> event list" where
  "send_message bot_send message parse_mode =
     (let chunks = split_message message in
      case deliver bot_send parse_mode (length chunks) 0 0 chunks of
        (Inr u, tr) \<Rightarrow> (Inr True, tr)
      | (Inl e, tr) \<Rightarrow> (Inr False, tr))"

text \<open>Chunk \<open>i\<close> was accepted: some transport call of iteration \<open>i\<close> returned.\<close>

fun accepted_call :: "nat \<Rightarrow> event \<Rightarrow> bool" where
  "accepted_call i (Call site j text mode (Inr u)) = (j = i)"
| "accepted_call i (Call site j text mode (Inl e)) = False"
| "accepted_call i (Sleep s) = False"

definition accepted :: "event list \<Rightarrow> nat \<Rightarrow> bool" where
  "accepted tr i = list_ex (accepted_call i) tr"

text \<open>A markup-parse failure is a \<open>TelegramError\<close> whose text passes the handler's test;
  \<open>other_failure\<close> is a transport call that failed in any other way, and \<open>is_fallback i\<close> a
  call made by the handler for chunk \<open>i\<close>.\<close>

fun markup_parse_failure :: "exn \<Rightarrow> bool" where
  "markup_parse_failure (TelegramError e) = cant_parse e"
| "markup_parse_failure (OtherException e) = False"

fun other_failure :: "event \<Rightarrow> bool" where
  "other_failure (Call site j text mode (Inl e)) = (\<not> markup_parse_failure e)"
| "other_failure (Call site j text mode (Inr u)) = False"
| "other_failure (Sleep s) = False"




text \<open>The default parse mode, \<open>ParseMode.MARKDOWN\<close>, and three transports for the examples:
  one that accepts every call; one that rejects the markup of the first call and accepts
  every later call; one that rejects the markup of the first call and fails every later
  call with a time-out.\<close>

definition MARKDOWN :: "string option" where
  "MARKDOWN = Some ''Markdown''"

definition parse_error_text :: string where
  "parse_error_text = ''Can'' @ [CHR 0x27] @ ''t parse entities''"

definition parse_error :: exn where
  "parse_error = TelegramError parse_error_text"

definition bot_accepts_all :: transport where
  "bot_accepts_all k text mode = Inr ()"

definition bot_rejects_markup_once :: transport where
  "bot_rejects_markup_once k text mode = (if k = 0 then Inl parse_error else Inr ())"

definition bot_rejects_then_times_out :: transport where
  "bot_rejects_then_times_out k text mode =
     (if k = 0 then Inl parse_error else Inl (TelegramError ''Timed out''))"


text \<open>An event of the iterations \<open>i, i + 1, \<dots>\<close> over the chunks \<open>cs\<close>: a call carries the
  index and text of one of them, and the parse mode of its call site.\<close>

fun iteration_event :: "string option \<Rightarrow> nat \<Rightarrow> string list \<Rightarrow> event \<Rightarrow> bool" where
  "iteration_event pm i cs (Call site j text mode r) =
     (i \<le> j \<and> j < i + length cs \<and> text = cs ! (j - i)
      \<and> mode = (if site = Primary then pm else None))"
| "iteration_event pm i cs (Sleep s) = True"


section \<open>The execution wrapper: \<open>MentalHealthResearchCrew.execute\<close> and \<open>execute_async\<close>\<close>

record CrewExecutionResult =
  execution_id :: string
  timestamp :: real
  status :: string
  report :: string
  error :: "string option"
  execution_time_seconds :: real

text \<open>\<open>int(x)\<close> of a float truncates towards zero; \<open>str\<close> of an integer is its decimal form.\<close>

definition py_int :: "real \<Rightarrow> int" where
  "py_int x = (if 0 \<le> x then \<lfloor>x\<rfloor> else \<lceil>x\<rceil>)"

fun digits :: "nat \<Rightarrow> string" where
  "digits n =
     (if n < 10 then [''0123456789'' ! n]
      else digits (n div 10) @ [''0123456789'' ! (n mod 10)])"

declare digits.simps [simp del]

definition py_str_int :: "int \<Rightarrow> string" where
  "py_str_int i = (if i < 0 then CHR ''-'' # digits (nat (- i)) else digits (nat i))"

text \<open>
  What can be raised inside the \<open>try\<close>: \<open>PyException m\<close> is an exception of class
  \<open>Exception\<close> with \<open>str(e) = m\<close>, which \<open>except Exception\<close> catches; \<open>PyBaseException c\<close> is
  one that is not of class \<open>Exception\<close> (\<open>KeyboardInterrupt\<close>, \<open>SystemExit\<close>,
  \<open>asyncio.CancelledError\<close>; \<open>c\<close> names it), which the handler does not catch.
\<close>

datatype raised = PyException string | PyBaseException string

text \<open>
  The two steps of the \<open>try\<close> that run foreign code: \<open>Inl e\<close> when \<open>kickoff\<close> raises \<open>e\<close>;
  \<open>Inr (Inl e)\<close> when \<open>kickoff\<close> returns and \<open>str(result)\<close> raises \<open>e\<close>; \<open>Inr (Inr s)\<close> when
  \<open>kickoff\<close> returns and \<open>str(result) = s\<close>.
\<close>

type_synonym orchestration = "raised + (raised + string)"

text \<open>
  The wrapper reads the wall clock; \<open>clock n\<close> is its \<open>n\<close>-th reading in a run, counted from
  0.  \<open>clock 0\<close> and \<open>clock 1\<close> are the two readings of \<open>time.time()\<close> before the \<open>try\<close>, for
  the id and for \<open>start_time\<close>.  When \<open>kickoff\<close> raises, the handler makes the next reading,
  \<open>clock 2\<close>.  When \<open>kickoff\<close> returns, \<open>clock 2\<close> is the reading inside the \<open>try\<close>; if
  \<open>str(result)\<close> then raises, the handler reads the clock again, \<open>clock 3\<close>.  The reading
  after those stamps the record (\<open>datetime.now\<close>).  The wrapper's own result is a sum,
  \<open>Inl\<close> for an exception that reaches the caller.
\<close>

definition execute :: "(nat \<Rightarrow> real) \<Rightarrow> orchestration \<Rightarrow> raised + CrewExecutionResult" where
  "execute clock kickoff =
     (let execution_id = ''exec_'' @ py_str_int (py_int (clock 0));
          start_time = clock 1
      in case kickoff of
           Inr result \<Rightarrow>
             (let execution_time = clock 2 - start_time
              in case result of
                   Inr text \<Rightarrow>
                     Inr \<lparr>execution_id = execution_id, timestamp = clock 3,
                          status = ''success'', report = text, error = None,
                          execution_time_seconds = execution_time\<rparr>
                 | Inl (PyException m) \<Rightarrow>
                     Inr \<lparr>execution_id = execution_id, timestamp = clock 4,
                          status = ''failure'', report = [],
                          error = Some (''Crew execution failed: '' @ m),
                          execution_time_seconds = clock 3 - start_time\<rparr>
                 | Inl (PyBaseException c) \<Rightarrow> Inl (PyBaseException c))
         | Inl (PyException m) \<Rightarrow>
             Inr \<lparr>execution_id = execution_id, timestamp = clock 3, status = ''failure'',
                  report = [], error = Some (''Crew execution failed: '' @ m),
                  execution_time_seconds = clock 2 - start_time\<rparr>
         | Inl (PyBaseException c) \<Rightarrow> Inl (PyBaseException c))"

text \<open>\<open>execute_async\<close> has the same body around \<open>await self.crew.kickoff_async()\<close>, with
  another text before the exception's message.\<close>

definition execute_async :: "(nat \<Rightarrow> real) \<Rightarrow> orchestration \<Rightarrow> raised + CrewExecutionResult" where
  "execute_async clock kickoff_async =
     (let execution_id = ''exec_'' @ py_str_int (py_int (clock 0));
          start_time = clock 1
      in case kickoff_async of
           Inr result \<Rightarrow>
             (let execution_time = clock 2 - start_time
              in case result of
                   Inr text \<Rightarrow>
                     Inr \<lparr>execution_id = execution_id, timestamp = clock 3,
                          status = ''success'', report = text, error = None,
                          execution_time_seconds = execution_time\<rparr>
                 | Inl (PyException m) \<Rightarrow>
                     Inr \<lparr>execution_id = execution_id, timestamp = clock 4,
                          status = ''failure'', report = [],
                          error = Some (''Async crew execution failed: '' @ m),
                          execution_time_seconds = clock 3 - start_time\<rparr>
                 | Inl (PyBaseException c) \<Rightarrow> Inl (PyBaseException c))
         | Inl (PyException m) \<Rightarrow>
             Inr \<lparr>execution_id = execution_id, timestamp = clock 3, status = ''failure'',
                  report = [], error = Some (''Async crew execution failed: '' @ m),
                  execution_time_seconds = clock 2 - start_time\<rparr>
         | Inl (PyBaseException c) \<Rightarrow> Inl (PyBaseException c))"


text \<open>Two clocks for the examples: one that runs on by 30 seconds from reading to reading,
  and one that has been set back by a minute when the orchestration call comes back.\<close>

definition clock_steady :: "nat \<Rightarrow> real" where
  "clock_steady n = 1700000000 + 30 * real n"

definition clock_set_back :: "nat \<Rightarrow> real" where
  "clock_set_back n = (if n = 2 then 1700000000 else 1700000060)"


section \<open>Properties of the chunking\<close>

lemma py_range_bound:
  "k \<in> set (py_range i stop step) \<Longrightarrow> k < stop"
proof (induction i stop step rule: py_range.induct)
  case (1 i stop step)
  then show ?case
    by (subst (asm) (2) py_range.simps) (auto split: if_splits)
qed

lemma hard_split_piece_le:
  "p \<in> set (hard_split line) \<Longrightarrow> length p \<le> MAX_MESSAGE_LENGTH - 100"
  by (auto simp: hard_split_def slice_def)

lemma split_step_ok: "chunks_ok s \<Longrightarrow> chunks_ok (split_step s line)"
proof (cases s)
  case (Pair chunks cur)
  assume ok: "chunks_ok s"
  have piece: "\<And>p. p \<in> set (hard_split line) \<Longrightarrow> length p \<le> MAX_MESSAGE_LENGTH"
    using hard_split_piece_le by fastforce
  from ok Pair piece show ?thesis
    by (auto simp: chunks_ok_def)
qed

lemma foldl_split_step_ok: "chunks_ok s \<Longrightarrow> chunks_ok (foldl split_step s ls)"
  by (induction ls arbitrary: s) (simp_all add: split_step_ok)

lemma split_nl_plain: "newline \<notin> set xs \<Longrightarrow> split_nl xs = [xs]"
  by (induction xs) auto

lemma split_nl_append:
  "newline \<notin> set xs \<Longrightarrow> split_nl (xs @ newline # ys) = xs # split_nl ys"
  by (induction xs) auto

lemma length_py_range:
  "0 < step \<Longrightarrow> length (py_range i stop step) = (stop - i + step - 1) div step"
proof (induction i stop step rule: py_range.induct)
  case (1 i stop step)
  show ?case
  proof (cases "i < stop")
    case False
    with 1(2) show ?thesis by (simp add: py_range.simps [of i])
  next
    case True
    define d where "d = stop - i - 1"
    have d: "stop - i + step - 1 = d + step"
      "stop - (i + step) + step - 1 = (if step \<le> d then d else step - 1)"
      using True 1(2) by (auto simp: d_def)
    have "(d + step) div step = Suc (d div step)"
      using 1(2) by (simp add: div_add_self2)
    then have "(stop - i + step - 1) div step = Suc (d div step)"
      by (simp only: d)
    moreover have "(if step \<le> d then d else step - 1) div step = d div step"
      using 1(2) by simp
    then have "(stop - (i + step) + step - 1) div step = d div step"
      by (simp only: d)
    moreover have "length (py_range i stop step) = Suc (length (py_range (i + step) stop step))"
      using True 1(2) by (simp add: py_range.simps [of i])
    ultimately show ?thesis using 1 True by simp
  qed
qed

lemma concat_slices:
  "0 < step \<Longrightarrow>
   concat (map (\<lambda>i. take step (drop i line)) (py_range i (length line) step)) = drop i line"
proof (induction i "length line" step rule: py_range.induct)
  case (1 i step)
  show ?case
  proof (cases "i < length line")
    case False
    then show ?thesis using 1(2) by (simp add: py_range.simps [of i])
  next
    case True
    have "take step (drop i line) @ drop (i + step) line = drop i line"
      by (metis append_take_drop_id drop_drop add.commute)
    with True 1 show ?thesis by (simp add: py_range.simps [of i])
  qed
qed

lemma hard_split_concat: "concat (hard_split line) = line"
  using concat_slices [of "MAX_MESSAGE_LENGTH - 100" line 0]
  by (simp add: hard_split_def slice_def MAX_MESSAGE_LENGTH_def)

lemma hard_split_length: "length (hard_split line) = (length line + 3995) div 3996"
  by (simp add: hard_split_def length_py_range MAX_MESSAGE_LENGTH_def)

lemma hard_split_two:
  assumes "3996 < length line" "length line \<le> 7992"
  shows "hard_split line = [take 3996 line, drop 3996 line]"
proof -
  have "py_range 0 (length line) 3996 = 0 # py_range 3996 (length line) 3996"
    using assms by (subst py_range.simps) auto
  also have "py_range 3996 (length line) 3996 = 3996 # py_range 7992 (length line) 3996"
    using assms by (subst py_range.simps) simp
  also have "py_range 7992 (length line) 3996 = []"
    using assms by (subst py_range.simps) simp
  finally show ?thesis using assms
    by (simp add: hard_split_def slice_def MAX_MESSAGE_LENGTH_def)
qed

lemma newline_not_a: "newline \<noteq> CHR ''a''"
  by (simp add: newline_def)

lemma ceiling_div_3996: "\<lceil>real n / 3996\<rceil> = int ((n + 3995) div 3996)"
proof (rule ceiling_unique)
  define q where "q = (n + 3995) div 3996"
  have q: "3996 * q \<le> n + 3995" "n < 3996 * q + 1"
    unfolding q_def by arith+
  have "real (3996 * q) < real n + 3996" using q(1) by linarith
  then show "real_of_int (int ((n + 3995) div 3996)) - 1 < real n / 3996"
    unfolding q_def [symmetric] by (simp add: field_simps)
  have "real n \<le> real (3996 * q)" using q(2) by linarith
  then show "real n / 3996 \<le> real_of_int (int ((n + 3995) div 3996))"
    unfolding q_def [symmetric] by (simp add: field_simps)
qed

lemma hard_split_ne: "p \<in> set (hard_split line) \<Longrightarrow> p \<noteq> []"
  using py_range_bound by (fastforce simp: hard_split_def slice_def MAX_MESSAGE_LENGTH_def)

lemma split_message_5000:
  "split_message (replicate 5000 CHR ''a'') = [replicate 3996 CHR ''a'', replicate 1004 CHR ''a'']"
  by (simp add: split_message_def split_nl_plain newline_not_a hard_split_two MAX_MESSAGE_LENGTH_def)

lemma split_nl_newlines: "split_nl (replicate n newline) = replicate (Suc n) []"
  by (induction n) simp_all

lemma foldl_blank_lines: "foldl split_step (chunks, []) (replicate n []) = (chunks, [])"
  by (induction n) (simp_all add: MAX_MESSAGE_LENGTH_def)

text \<open>
  Claim C4.  A message of at most \<open>MAX_MESSAGE_LENGTH\<close> (4096) characters is returned as
  exactly one chunk, which is the message itself.
\<close>

theorem split_message_short:
  "length message \<le> MAX_MESSAGE_LENGTH \<Longrightarrow> split_message message = [message]"
  by (simp add: split_message_def)

theorem split_message_short_witness:
  "length ''line one'' \<le> MAX_MESSAGE_LENGTH \<and> split_message ''line one'' = [''line one'']"
  using split_message_short [of "''line one''"] by (simp add: MAX_MESSAGE_LENGTH_def)

text \<open>
  Claim C2.  Every chunk returned by \<open>_split_message\<close> has length at most
  \<open>MAX_MESSAGE_LENGTH\<close> = 4096, whatever the message.
\<close>

theorem split_message_chunk_le:
  "\<forall>c \<in> set (split_message message). length c \<le> MAX_MESSAGE_LENGTH"
proof (cases "length message \<le> MAX_MESSAGE_LENGTH")
  case True
  then show ?thesis by (simp add: split_message_def)
next
  case False
  obtain chunks cur where run: "foldl split_step ([], []) (split_nl message) = (chunks, cur)"
    by (cases "foldl split_step ([], []) (split_nl message)")
  have "chunks_ok ([], [])" by (simp add: chunks_ok_def)
  then have "chunks_ok (foldl split_step ([], []) (split_nl message))"
    by (rule foldl_split_step_ok)
  then have "(\<forall>c \<in> set chunks. length c \<le> MAX_MESSAGE_LENGTH) \<and> length cur \<le> MAX_MESSAGE_LENGTH"
    by (simp add: run chunks_ok_def)
  with False show ?thesis
    by (simp add: split_message_def run)
qed

theorem split_message_chunk_le_witness:
  "replicate 1004 CHR ''a'' \<in> set (split_message (replicate 5000 CHR ''a''))
   \<and> length (replicate 1004 CHR ''a'') \<le> MAX_MESSAGE_LENGTH"
proof -
  have mem: "replicate 1004 CHR ''a'' \<in> set (split_message (replicate 5000 CHR ''a''))"
    by (simp add: split_message_5000)
  from split_message_chunk_le [of "replicate 5000 CHR ''a''"] mem
  have "length (replicate 1004 CHR ''a'') \<le> MAX_MESSAGE_LENGTH"
    by (rule bspec)
  with mem show ?thesis by (rule conjI)
qed

lemma split_nl_not_empty: "split_nl m \<noteq> []"
  by (induction m) simp_all

lemma split_step_fst_grows: "\<exists>ext. fst (split_step s line) = fst s @ ext"
  by (cases s) simp

lemma foldl_split_step_fst_grows: "\<exists>ext. fst (foldl split_step s ls) = fst s @ ext"
proof (induction ls arbitrary: s)
  case Nil
  then show ?case by simp
next
  case (Cons l ls)
  from Cons [of "split_step s l"] obtain ext where
    "fst (foldl split_step (split_step s l) ls) = fst (split_step s l) @ ext" by blast
  moreover from split_step_fst_grows [of s l] obtain ext' where
    "fst (split_step s l) = fst s @ ext'" by blast
  ultimately have "fst (foldl split_step s (l # ls)) = fst s @ (ext' @ ext)" by simp
  then show ?case by (rule exI)
qed

lemma split_nl_line_length: "line \<in> set (split_nl m) \<Longrightarrow> length line \<le> length m"
proof (induction m arbitrary: line)
  case Nil
  then show ?case by simp
next
  case (Cons c cs)
  have ne: "split_nl cs \<noteq> []" by (rule split_nl_not_empty)
  then have hd: "hd (split_nl cs) \<in> set (split_nl cs)" by simp
  have tl: "set (tl (split_nl cs)) \<subseteq> set (split_nl cs)"
    using ne by (cases "split_nl cs") auto
  show ?case
  proof (cases "c = newline")
    case True
    with Cons show ?thesis by (auto simp: le_Suc_eq)
  next
    case False
    with Cons.prems have "line = c # hd (split_nl cs) \<or> line \<in> set (tl (split_nl cs))" by simp
    then show ?thesis
    proof
      assume "line = c # hd (split_nl cs)"
      with Cons.IH [OF hd] show ?thesis by simp
    next
      assume "line \<in> set (tl (split_nl cs))"
      with tl have "line \<in> set (split_nl cs)" by blast
      from Cons.IH [OF this] show ?thesis by simp
    qed
  qed
qed

lemma split_message_long_line:
  assumes line: "line \<in> set (split_nl message)" and long: "length line > MAX_MESSAGE_LENGTH"
  shows "\<exists>pre post. split_message message = pre @ hard_split line @ post"
proof -
  from split_nl_line_length [OF line] long have big: "\<not> length message \<le> MAX_MESSAGE_LENGTH"
    by simp
  from line obtain ls1 ls2 where ls: "split_nl message = ls1 @ line # ls2"
    by (auto simp: in_set_conv_decomp)
  obtain c1 cur1 where s1: "foldl split_step ([], []) ls1 = (c1, cur1)"
    by (cases "foldl split_step ([], []) ls1")
  let ?s2 = "(c1 @ (if cur1 \<noteq> [] then [cur1] else []) @ hard_split line, [])"
  have s2: "split_step (c1, cur1) line = ?s2" using long by simp
  obtain chunks cur where fin: "foldl split_step ?s2 ls2 = (chunks, cur)"
    by (cases "foldl split_step ?s2 ls2")
  from foldl_split_step_fst_grows [of ?s2 ls2] fin obtain ext where
    chunks: "chunks = (c1 @ (if cur1 \<noteq> [] then [cur1] else []) @ hard_split line) @ ext"
    by auto
  have run: "foldl split_step ([], []) (split_nl message) = (chunks, cur)"
    by (simp only: ls foldl_append foldl_Cons s1 s2 fin)
  have "split_message message = chunks @ (if cur \<noteq> [] then [cur] else [])"
    using big by (simp add: split_message_def run)
  also have "\<dots> = (c1 @ (if cur1 \<noteq> [] then [cur1] else [])) @ hard_split line
      @ (ext @ (if cur \<noteq> [] then [cur] else []))"
    by (simp add: chunks)
  finally show ?thesis by blast
qed

lemma newline_not_x: "newline \<noteq> CHR ''x''"
  by (simp add: newline_def)

lemma split_nl_x_5000:
  "split_nl (''x'' @ newline # replicate 5000 CHR ''a'') = [''x'', replicate 5000 CHR ''a'']"
  using split_nl_append [of "''x''" "replicate 5000 CHR ''a''"]
  by (simp add: split_nl_plain newline_not_a newline_not_x)


lemma split_nl_at_newline: "split_nl (xs @ newline # ys) = split_nl xs @ split_nl ys"
proof (induction xs)
  case Nil
  then show ?case by simp
next
  case (Cons c xs)
  have "split_nl xs \<noteq> []" by (rule split_nl_not_empty)
  with Cons show ?case by simp
qed

lemma split_nl_line_then:
  assumes "newline \<notin> set line" "after = [] \<or> hd after = newline"
  shows "line \<in> set (split_nl (line @ after))"
proof (cases after)
  case Nil
  with assms(1) show ?thesis by (simp add: split_nl_plain)
next
  case (Cons a rest)
  with assms(2) have "after = newline # rest" by simp
  with assms(1) show ?thesis by (simp add: split_nl_append)
qed

lemma split_nl_between:
  assumes "newline \<notin> set line" "before = [] \<or> last before = newline"
    "after = [] \<or> hd after = newline"
  shows "line \<in> set (split_nl (before @ line @ after))"
proof (cases "before = []")
  case True
  with split_nl_line_then [OF assms(1,3)] show ?thesis by simp
next
  case False
  with assms(2) have "before = butlast before @ [newline]"
    by (metis append_butlast_last_id)
  then have "before @ line @ after = butlast before @ newline # (line @ after)"
    by (metis append.assoc append_Cons append_Nil)
  then have "split_nl (before @ line @ after) =
      split_nl (butlast before) @ split_nl (line @ after)"
    by (simp only: split_nl_at_newline)
  with split_nl_line_then [OF assms(1,3)] show ?thesis by simp
qed

text \<open>
  Claim C5.  Take a line longer than the limit.  In every message that has it among its
  lines, the chunks of the message hold the pieces of \<open>hard_split\<close> of the line, one chunk
  each, side by side and in order; the same said without \<open>split_nl\<close>: in every message in
  which the line, free of line feeds, stands between line feeds or the ends of the message.
  The line is handled by the first branch of the loop body, whatever has been collected
  before it: the pending chunk, if not empty, is closed, the pieces are appended and no
  pending chunk is left.  There are exactly \<open>ceil(len(line) / (limit - 100))\<close> pieces, none
  empty and none longer than \<open>limit - 100 = 3996\<close>, and in order they make up the line.  A
  message that is one such line is split into just these pieces.
\<close>

theorem hard_split_long_line:
  assumes "length line > MAX_MESSAGE_LENGTH"
  shows "(\<forall>message. line \<in> set (split_nl message) \<longrightarrow>
            (\<exists>pre post. split_message message = pre @ hard_split line @ post))
     \<and> (\<forall>before after. newline \<notin> set line
            \<and> (before = [] \<or> last before = newline) \<and> (after = [] \<or> hd after = newline) \<longrightarrow>
            (\<exists>pre post. split_message (before @ line @ after) = pre @ hard_split line @ post))
     \<and> (\<forall>chunks cur. split_step (chunks, cur) line =
            (chunks @ (if cur \<noteq> [] then [cur] else []) @ hard_split line, []))
     \<and> int (length (hard_split line)) = \<lceil>real (length line) / real (MAX_MESSAGE_LENGTH - 100)\<rceil>
     \<and> (\<forall>p \<in> set (hard_split line). length p \<le> MAX_MESSAGE_LENGTH - 100 \<and> p \<noteq> [])
     \<and> concat (hard_split line) = line
     \<and> (newline \<notin> set line \<longrightarrow> split_message line = hard_split line)"
proof -
  have general: "\<forall>message. line \<in> set (split_nl message) \<longrightarrow>
      (\<exists>pre post. split_message message = pre @ hard_split line @ post)"
    using assms split_message_long_line by blast
  have between: "\<forall>before after. newline \<notin> set line
      \<and> (before = [] \<or> last before = newline) \<and> (after = [] \<or> hd after = newline) \<longrightarrow>
      (\<exists>pre post. split_message (before @ line @ after) = pre @ hard_split line @ post)"
  proof (intro allI impI)
    fix before after
    assume h: "newline \<notin> set line
      \<and> (before = [] \<or> last before = newline) \<and> (after = [] \<or> hd after = newline)"
    then have "line \<in> set (split_nl (before @ line @ after))"
      by (intro split_nl_between) simp_all
    with assms show "\<exists>pre post. split_message (before @ line @ after) =
        pre @ hard_split line @ post"
      by (intro split_message_long_line)
  qed
  have step: "\<forall>chunks cur. split_step (chunks, cur) line =
      (chunks @ (if cur \<noteq> [] then [cur] else []) @ hard_split line, [])"
    using assms by simp
  have count: "int (length (hard_split line)) =
      \<lceil>real (length line) / real (MAX_MESSAGE_LENGTH - 100)\<rceil>"
    by (simp add: ceiling_div_3996 hard_split_length MAX_MESSAGE_LENGTH_def)
  have pieces: "\<forall>p \<in> set (hard_split line). length p \<le> MAX_MESSAGE_LENGTH - 100 \<and> p \<noteq> []"
    using hard_split_piece_le hard_split_ne by blast
  have whole: "newline \<notin> set line \<longrightarrow> split_message line = hard_split line"
    using assms by (simp add: split_message_def split_nl_plain)
  from general between step count pieces hard_split_concat whole show ?thesis
    by (intro conjI)
qed

theorem hard_split_long_line_witness:
  "MAX_MESSAGE_LENGTH < length (replicate 5000 CHR ''a'')
   \<and> replicate 5000 CHR ''a'' \<in> set (split_nl (''x'' @ newline # replicate 5000 CHR ''a''))
   \<and> (\<exists>pre post. split_message (''x'' @ newline # replicate 5000 CHR ''a'') =
         pre @ hard_split (replicate 5000 CHR ''a'') @ post)
   \<and> newline \<notin> set (replicate 5000 CHR ''a'')
   \<and> last (''x'' @ [newline]) = newline \<and> hd (newline # ''y'') = newline
   \<and> (\<exists>pre post. split_message ((''x'' @ [newline]) @ replicate 5000 CHR ''a'' @ newline # ''y'') =
         pre @ hard_split (replicate 5000 CHR ''a'') @ post)
   \<and> split_step ([''x''], ''y'') (replicate 5000 CHR ''a'') =
       ([''x'', ''y''] @ hard_split (replicate 5000 CHR ''a''), [])
   \<and> int (length (hard_split (replicate 5000 CHR ''a''))) =
       \<lceil>real 5000 / real (MAX_MESSAGE_LENGTH - 100)\<rceil>
   \<and> concat (hard_split (replicate 5000 CHR ''a'')) = replicate 5000 CHR ''a''
   \<and> split_message (replicate 5000 CHR ''a'') = hard_split (replicate 5000 CHR ''a'')"
proof -
  let ?line = "replicate 5000 CHR ''a''"
  have len: "MAX_MESSAGE_LENGTH < length ?line"
    by (simp add: MAX_MESSAGE_LENGTH_def)
  have nl: "newline \<notin> set ?line"
    by (simp add: newline_not_a)
  have mem: "?line \<in> set (split_nl (''x'' @ newline # ?line))"
    by (simp only: split_nl_x_5000) simp
  have ends: "last (''x'' @ [newline]) = newline" "hd (newline # ''y'') = newline"
    by simp_all
  note split = hard_split_long_line [OF len]
  from split mem have 1: "\<exists>pre post. split_message (''x'' @ newline # ?line) =
      pre @ hard_split ?line @ post" by blast
  from split have "newline \<notin> set ?line
      \<and> (''x'' @ [newline] = [] \<or> last (''x'' @ [newline]) = newline)
      \<and> (newline # ''y'' = [] \<or> hd (newline # ''y'') = newline) \<longrightarrow>
      (\<exists>pre post. split_message ((''x'' @ [newline]) @ ?line @ newline # ''y'') =
         pre @ hard_split ?line @ post)"
    by blast
  with nl ends have 2: "\<exists>pre post. split_message ((''x'' @ [newline]) @ ?line @ newline # ''y'') =
      pre @ hard_split ?line @ post"
    by blast
  from split have 3: "split_step ([''x''], ''y'') ?line = ([''x'', ''y''] @ hard_split ?line, [])"
    by simp
  from split have 4: "int (length (hard_split ?line)) = \<lceil>real 5000 / real (MAX_MESSAGE_LENGTH - 100)\<rceil>"
    by simp
  from split have 5: "concat (hard_split ?line) = ?line" by blast
  from split nl have 6: "split_message ?line = hard_split ?line" by blast
  from len mem 1 nl ends 2 3 4 5 6 show ?thesis by (intro conjI)
qed

text \<open>What the chunking does keep: every character other than the line feed, in order.\<close>

lemma concat_split_nl: "concat (split_nl m) = filter (\<lambda>c. c \<noteq> newline) m"
proof (induction m)
  case Nil
  then show ?case by simp
next
  case (Cons c cs)
  have "concat (hd (split_nl cs) # tl (split_nl cs)) = concat (split_nl cs)"
    using split_nl_not_empty [of cs] by simp
  with Cons show ?case by simp
qed

lemma split_nl_lines: "line \<in> set (split_nl m) \<Longrightarrow> newline \<notin> set line"
proof (induction m arbitrary: line)
  case Nil
  then show ?case by simp
next
  case (Cons c cs)
  have "hd (split_nl cs) \<in> set (split_nl cs)"
    using split_nl_not_empty [of cs] by simp
  moreover have "set (tl (split_nl cs)) \<subseteq> set (split_nl cs)"
    using split_nl_not_empty [of cs] by (cases "split_nl cs") auto
  ultimately show ?case using Cons by (auto split: if_splits)
qed

lemma split_step_text:
  assumes "newline \<notin> set line"
  shows "text_of (split_step s line) = text_of s @ line"
proof (cases s)
  case (Pair chunks cur)
  have keep: "filter (\<lambda>c. c \<noteq> newline) line = line"
    using assms by (auto simp: filter_id_conv)
  from Pair keep show ?thesis
    by (simp add: text_of_def hard_split_concat)
qed

lemma foldl_split_step_text:
  "\<forall>line \<in> set ls. newline \<notin> set line \<Longrightarrow>
   text_of (foldl split_step s ls) = text_of s @ concat ls"
  by (induction ls arbitrary: s) (simp_all add: split_step_text)

lemma split_message_keeps_text:
  "filter (\<lambda>c. c \<noteq> newline) (concat (split_message message)) =
   filter (\<lambda>c. c \<noteq> newline) message"
proof (cases "length message \<le> MAX_MESSAGE_LENGTH")
  case True
  then show ?thesis by (simp add: split_message_def)
next
  case False
  obtain chunks cur where run: "foldl split_step ([], []) (split_nl message) = (chunks, cur)"
    by (cases "foldl split_step ([], []) (split_nl message)")
  have "text_of (foldl split_step ([], []) (split_nl message)) =
      text_of ([], []) @ concat (split_nl message)"
    by (rule foldl_split_step_text) (simp add: split_nl_lines)
  then have "filter (\<lambda>c. c \<noteq> newline) (concat chunks @ cur) =
      filter (\<lambda>c. c \<noteq> newline) message"
    by (simp add: run text_of_def concat_split_nl)
  with False show ?thesis by (auto simp: split_message_def run)
qed

text \<open>
  Claim C1 fails on the code.  A blank line that arrives while the pending chunk is empty
  leaves no trace: the separator is added only \<open>if current_chunk\<close>, and an empty pending
  chunk is taken for "no line yet".  The message made of a line feed and 4097 letters comes
  back as the two pieces of the long line, so no way of joining the chunks gives the message
  back; a message of 5000 line feeds comes back as no chunk at all.  Only line feeds are
  lost (\<open>split_message_keeps_text\<close>).
\<close>

theorem split_message_drops_blank_line:
  "split_message (newline # replicate 4097 CHR ''a'') =
     [replicate 3996 CHR ''a'', replicate 101 CHR ''a'']
   \<and> split_message (replicate 5000 newline) = []"
proof
  show "split_message (newline # replicate 4097 CHR ''a'') =
     [replicate 3996 CHR ''a'', replicate 101 CHR ''a'']"
    using split_nl_append [of "[]" "replicate 4097 CHR ''a''"]
    by (simp add: split_message_def split_nl_plain newline_not_a hard_split_two
          MAX_MESSAGE_LENGTH_def)
  show "split_message (replicate 5000 newline) = []"
    by (simp add: split_message_def split_nl_newlines foldl_blank_lines MAX_MESSAGE_LENGTH_def
          del: replicate_Suc)
qed

text \<open>
  Claim C3 fails on the code.  The second branch of the loop body closes the pending
  chunk without the test \<open>if current_chunk\<close> that the first branch and the code after the
  loop make.  A line of exactly 4096 characters that arrives while the pending chunk is
  empty satisfies \<open>0 + 4096 + 1 > 4096\<close>, so the empty pending chunk is appended.
\<close>

theorem split_message_empty_chunk:
  "split_message (replicate 4096 CHR ''a'' @ [newline, CHR ''b'']) =
     [[], replicate 4096 CHR ''a'', ''b'']"
  using split_nl_append [of "replicate 4096 CHR ''a''" "''b''"]
  by (simp add: split_message_def split_nl_plain newline_not_a newline_def MAX_MESSAGE_LENGTH_def)


section \<open>Properties of the delivery\<close>

lemma deliver_Cons_cases:
  assumes "deliver bot_send pm n i k (c # rest) = (res, tr)"
  obtains
    (sent) u tr' where "bot_send k c pm = Inr u"
      "deliver bot_send pm n (i + 1) (k + 1) rest = (res, tr')"
      "tr = Call Primary i c pm (Inr u) # (if int i < int n - 1 then [Sleep 1] else []) @ tr'"
  | (other) e where "bot_send k c pm = Inl (OtherException e)"
      "res = Inl (OtherException e)" "tr = [Call Primary i c pm (Inl (OtherException e))]"
  | (resent) e u tr' where "bot_send k c pm = Inl (TelegramError e)" "cant_parse e"
      "bot_send (k + 1) c None = Inr u"
      "deliver bot_send pm n (i + 1) (k + 2) rest = (res, tr')"
      "tr = Call Primary i c pm (Inl (TelegramError e)) # Call Fallback i c None (Inr u) # tr'"
  | (resend_failed) e e' where "bot_send k c pm = Inl (TelegramError e)" "cant_parse e"
      "bot_send (k + 1) c None = Inl e'" "res = Inl e'"
      "tr = [Call Primary i c pm (Inl (TelegramError e)), Call Fallback i c None (Inl e')]"
  | (telegram) e where "bot_send k c pm = Inl (TelegramError e)" "\<not> cant_parse e"
      "res = Inl (TelegramError e)" "tr = [Call Primary i c pm (Inl (TelegramError e))]"
  using assms
  by (auto split: sum.splits exn.splits prod.splits if_splits)


lemma iteration_event_shift:
  "iteration_event pm (Suc i) rest ev \<Longrightarrow> iteration_event pm i (c # rest) ev"
  by (cases ev) (auto simp: Suc_diff_le)

lemma deliver_events:
  "deliver bot_send pm n i k cs = (res, tr) \<Longrightarrow> ev \<in> set tr \<Longrightarrow> iteration_event pm i cs ev"
proof (induction cs arbitrary: i k res tr)
  case Nil
  then show ?case by simp
next
  case (Cons c rest)
  from Cons.prems(1) show ?case
  proof (cases rule: deliver_Cons_cases)
    case (sent u tr')
    with Cons.prems(2) Cons.IH [of "i + 1" "k + 1" res tr'] show ?thesis
      by (auto intro: iteration_event_shift split: if_splits)
  next
    case (resent e u tr')
    with Cons.prems(2) Cons.IH [of "i + 1" "k + 2" res tr'] show ?thesis
      by (auto intro: iteration_event_shift)
  qed (use Cons.prems(2) in auto)
qed

lemma later_not_accepted:
  "deliver bot_send pm n (Suc i) k cs = (res, tr) \<Longrightarrow> \<not> accepted tr i"
  unfolding accepted_def list_ex_iff
proof
  assume run: "deliver bot_send pm n (Suc i) k cs = (res, tr)" and "\<exists>ev\<in>set tr. accepted_call i ev"
  then obtain ev where ev: "ev \<in> set tr" "accepted_call i ev" by blast
  from deliver_events [OF run ev(1)] ev(2) show False
    by (cases "(i, ev)" rule: accepted_call.cases) auto
qed



lemma deliver_accepted:
  "deliver bot_send pm n i k cs = (res, tr) \<Longrightarrow>
   (res = Inr ()) = (\<forall>j. i \<le> j \<and> j < i + length cs \<longrightarrow> accepted tr j)"
proof (induction cs arbitrary: i k res tr)
  case Nil
  then show ?case by auto
next
  case (Cons c rest)
  have range: "i \<le> j \<and> j < i + length (c # rest) \<longleftrightarrow>
      j = i \<or> Suc i \<le> j \<and> j < Suc i + length rest" for j
    by auto
  have failed: ?case if "\<not> accepted tr i" "res \<noteq> Inr ()"
    unfolding range using that by auto
  have passed: ?case
    if run: "deliver bot_send pm n (Suc i) k' rest = (res, tr')"
      and here: "accepted tr i"
      and later: "\<And>j. Suc i \<le> j \<Longrightarrow> accepted tr j = accepted tr' j"
    for k' tr'
  proof -
    have "(res = Inr ()) = (\<forall>j. Suc i \<le> j \<and> j < Suc i + length rest \<longrightarrow> accepted tr' j)"
      using Cons.IH [OF run] .
    also have "\<dots> = (\<forall>j. Suc i \<le> j \<and> j < Suc i + length rest \<longrightarrow> accepted tr j)"
      using later by blast
    also have "\<dots> = (\<forall>j. i \<le> j \<and> j < i + length (c # rest) \<longrightarrow> accepted tr j)"
      unfolding range using here by auto
    finally show ?thesis .
  qed
  from Cons.prems show ?case
  proof (cases rule: deliver_Cons_cases)
    case (sent u tr')
    show ?thesis
    proof (rule passed)
      show "deliver bot_send pm n (Suc i) (k + 1) rest = (res, tr')" using sent(2) by simp
      show "accepted tr i" using sent(3) by (simp add: accepted_def)
      show "accepted tr j = accepted tr' j" if "Suc i \<le> j" for j
        using sent(3) that by (simp add: accepted_def)
    qed
  next
    case (resent e u tr')
    show ?thesis
    proof (rule passed)
      show "deliver bot_send pm n (Suc i) (k + 2) rest = (res, tr')" using resent(4) by simp
      show "accepted tr i" using resent(5) by (simp add: accepted_def)
      show "accepted tr j = accepted tr' j" if "Suc i \<le> j" for j
        using resent(5) that by (simp add: accepted_def)
    qed
  next
    case (other e)
    then show ?thesis by (intro failed) (simp_all add: accepted_def)
  next
    case (resend_failed e e')
    then show ?thesis by (intro failed) (simp_all add: accepted_def)
  next
    case (telegram e)
    then show ?thesis by (intro failed) (simp_all add: accepted_def)
  qed
qed

lemma deliver_other_failure:
  "deliver bot_send pm n i k cs = (res, tr) \<Longrightarrow> tr = pre @ ev # post \<Longrightarrow> other_failure ev \<Longrightarrow>
   post = [] \<and> (\<exists>e. res = Inl e)"
proof (induction cs arbitrary: i k res tr pre)
  case Nil
  then show ?case by simp
next
  case (Cons c rest)
  from Cons.prems(1) show ?case
  proof (cases rule: deliver_Cons_cases)
    case (sent u tr')
    with Cons.prems(2,3) obtain pre' where "tr' = pre' @ ev # post"
      by (auto simp: Cons_eq_append_conv append_eq_Cons_conv split: if_splits)
    with Cons.IH [OF sent(2) this Cons.prems(3)] show ?thesis by simp
  next
    case (resent e u tr')
    with Cons.prems(2,3) obtain pre' where "tr' = pre' @ ev # post"
      by (auto simp: Cons_eq_append_conv append_eq_Cons_conv)
    with Cons.IH [OF resent(4) this Cons.prems(3)] show ?thesis by simp
  next
    case (other e)
    with Cons.prems(2,3) show ?thesis by (auto simp: Cons_eq_append_conv)
  next
    case (resend_failed e e')
    with Cons.prems(2,3) show ?thesis by (auto simp: Cons_eq_append_conv)
  next
    case (telegram e)
    with Cons.prems(2,3) show ?thesis by (auto simp: Cons_eq_append_conv)
  qed
qed






lemma cant_parse_parse_error: "cant_parse parse_error_text"
  by (simp add: cant_parse_def lower_char_def parse_error_text_def)

lemma not_cant_parse_timed_out: "\<not> cant_parse ''Timed out''"
  by (simp add: cant_parse_def lower_char_def)

lemma run_accepts_all:
  "send_message bot_accepts_all (replicate 5000 CHR ''a'') MARKDOWN =
     (Inr True,
      [Call Primary 0 (replicate 3996 CHR ''a'') MARKDOWN (Inr ()),
       Sleep 1,
       Call Primary 1 (replicate 1004 CHR ''a'') MARKDOWN (Inr ())])"
  by (simp add: send_message_def split_message_5000 bot_accepts_all_def)

lemma run_rejects_markup_once:
  "send_message bot_rejects_markup_once (replicate 5000 CHR ''a'') MARKDOWN =
     (Inr True,
      [Call Primary 0 (replicate 3996 CHR ''a'') MARKDOWN (Inl parse_error),
       Call Fallback 0 (replicate 3996 CHR ''a'') None (Inr ()),
       Call Primary 1 (replicate 1004 CHR ''a'') MARKDOWN (Inr ())])"
  by (simp add: send_message_def split_message_5000 bot_rejects_markup_once_def parse_error_def
        cant_parse_parse_error)

lemma run_rejects_then_times_out:
  "send_message bot_rejects_then_times_out (replicate 5000 CHR ''a'') MARKDOWN =
     (Inr False,
      [Call Primary 0 (replicate 3996 CHR ''a'') MARKDOWN (Inl parse_error),
       Call Fallback 0 (replicate 3996 CHR ''a'') None (Inl (TelegramError ''Timed out''))])"
  by (simp add: send_message_def split_message_5000 bot_rejects_then_times_out_def parse_error_def
        cant_parse_parse_error)


lemma send_message_deliver:
  assumes "send_message bot_send message parse_mode = (res, tr)"
  obtains r where
    "deliver bot_send parse_mode (length (split_message message)) 0 0 (split_message message) = (r, tr)"
    "res = (case r of Inr u \<Rightarrow> Inr True | Inl e \<Rightarrow> Inr False)"
  using assms
  by (auto simp: send_message_def Let_def split: prod.splits sum.splits)




text \<open>
  Claim C7.  \<open>send_message\<close> raises nothing: it returns \<open>True\<close> or \<open>False\<close>.  It returns
  \<open>True\<close> exactly when every chunk of the message was accepted by a transport call of its
  iteration, the first send or the resend without formatting.  A transport call that
  fails otherwise than with a markup-parse failure is the last event of the run, and the
  run returns \<open>False\<close>.
\<close>

theorem send_message_result:
  assumes "send_message bot_send message parse_mode = (res, tr)"
  shows "(res = Inr True \<or> res = Inr False)
     \<and> ((res = Inr True) = (\<forall>i < length (split_message message). accepted tr i))
     \<and> (\<forall>pre ev post. tr = pre @ ev # post \<and> other_failure ev \<longrightarrow>
           post = [] \<and> res = Inr False)"
proof -
  from assms obtain r where
    run: "deliver bot_send parse_mode (length (split_message message)) 0 0 (split_message message) = (r, tr)"
    and res: "res = (case r of Inr u \<Rightarrow> Inr True | Inl e \<Rightarrow> Inr False)"
    by (rule send_message_deliver)
  have 1: "res = Inr True \<or> res = Inr False"
    using res by (cases r) simp_all
  have "(res = Inr True) = (r = Inr ())"
    using res by (cases r) simp_all
  also have "\<dots> = (\<forall>j. 0 \<le> j \<and> j < 0 + length (split_message message) \<longrightarrow> accepted tr j)"
    by (rule deliver_accepted [OF run])
  finally have 2: "(res = Inr True) = (\<forall>i < length (split_message message). accepted tr i)"
    by simp
  have 3: "post = [] \<and> res = Inr False" if "tr = pre @ ev # post" "other_failure ev" for pre ev post
  proof -
    from deliver_other_failure [OF run that] obtain e where "post = []" "r = Inl e" by blast
    with res show ?thesis by simp
  qed
  from 1 2 3 show ?thesis by blast
qed

theorem send_message_result_witness:
  "send_message bot_rejects_markup_once (replicate 5000 CHR ''a'') MARKDOWN =
     (Inr True,
      [Call Primary 0 (replicate 3996 CHR ''a'') MARKDOWN (Inl parse_error),
       Call Fallback 0 (replicate 3996 CHR ''a'') None (Inr ()),
       Call Primary 1 (replicate 1004 CHR ''a'') MARKDOWN (Inr ())])
   \<and> accepted
      [Call Primary 0 (replicate 3996 CHR ''a'') MARKDOWN (Inl parse_error),
       Call Fallback 0 (replicate 3996 CHR ''a'') None (Inr ()),
       Call Primary 1 (replicate 1004 CHR ''a'') MARKDOWN (Inr ())] 1
   \<and> other_failure (Call Fallback 0 (replicate 3996 CHR ''a'') None (Inl (TelegramError ''Timed out'')))
   \<and> fst (send_message bot_rejects_then_times_out (replicate 5000 CHR ''a'') MARKDOWN) = Inr False"
proof -
  let ?tr = "[Call Primary 0 (replicate 3996 CHR ''a'') MARKDOWN (Inl parse_error),
       Call Fallback 0 (replicate 3996 CHR ''a'') None (Inr ()),
       Call Primary 1 (replicate 1004 CHR ''a'') MARKDOWN (Inr ())]"
  let ?F = "Call Fallback 0 (replicate 3996 CHR ''a'') None (Inl (TelegramError ''Timed out''))"
  have "\<forall>i < length (split_message (replicate 5000 CHR ''a'')). accepted ?tr i"
    using send_message_result [OF run_rejects_markup_once] by blast
  then have a: "accepted ?tr 1" by (simp add: split_message_5000)
  have f: "other_failure ?F" by (simp add: not_cant_parse_timed_out)
  let ?run = "send_message bot_rejects_then_times_out (replicate 5000 CHR ''a'') MARKDOWN"
  have "?run = (fst ?run, snd ?run)" by simp
  from send_message_result [OF this]
  have "snd ?run = [Call Primary 0 (replicate 3996 CHR ''a'') MARKDOWN (Inl parse_error)] @ ?F # []
      \<and> other_failure ?F \<longrightarrow> fst ?run = Inr False"
    by blast
  with f have "fst ?run = Inr False"
    by (simp add: run_rejects_then_times_out)
  with a f run_rejects_markup_once run_rejects_then_times_out show ?thesis by simp
qed

text \<open>
  Claim C8 fails on the code.  \<open>asyncio.sleep(1)\<close> stands inside the \<open>try\<close>, after the
  first send, so it runs only when that send returns.  When every send is accepted, the
  pause separates the two chunks; when the first chunk goes through the plain-text resend,
  the second chunk is sent with no pause before it.
\<close>

theorem send_message_no_pause_after_fallback:
  "send_message bot_accepts_all (replicate 5000 CHR ''a'') MARKDOWN =
     (Inr True,
      [Call Primary 0 (replicate 3996 CHR ''a'') MARKDOWN (Inr ()),
       Sleep 1,
       Call Primary 1 (replicate 1004 CHR ''a'') MARKDOWN (Inr ())])
   \<and> send_message bot_rejects_markup_once (replicate 5000 CHR ''a'') MARKDOWN =
     (Inr True,
      [Call Primary 0 (replicate 3996 CHR ''a'') MARKDOWN (Inl parse_error),
       Call Fallback 0 (replicate 3996 CHR ''a'') None (Inr ()),
       Call Primary 1 (replicate 1004 CHR ''a'') MARKDOWN (Inr ())])"
  using run_accepts_all run_rejects_markup_once by (rule conjI)


section \<open>Properties of the execution wrapper\<close>

lemma digits_1700000060: "digits 1700000060 = ''1700000060''"
  by (simp add: digits.simps)

text \<open>
  Claim C9 says that every exception of the orchestration call is caught and that the
  recorded time is never negative.  The time is the difference of two readings of the
  wall clock, which can be set back between them: with \<open>clock_set_back\<close> the record of a
  successful run carries \<open>- 60\<close> seconds.  And the handler is \<open>except Exception\<close>: a
  cancellation of the awaited call is not of that class and reaches the caller.
\<close>

theorem execute_negative_time:
  "execute clock_set_back (Inr (Inr ''report'')) =
     Inr \<lparr>execution_id = ''exec_1700000060'', timestamp = 1700000060, status = ''success'',
          report = ''report'', error = None, execution_time_seconds = - 60\<rparr>
   \<and> execute_async clock_steady (Inl (PyBaseException ''CancelledError'')) =
     Inl (PyBaseException ''CancelledError'')"
  by (simp add: execute_def execute_async_def clock_set_back_def py_int_def py_str_int_def
        digits_1700000060)

text \<open>
  Claim C9, amended.  For both wrappers: when the orchestration call, or \<open>str\<close> of its
  result, raises an exception of class \<open>Exception\<close> with message \<open>m\<close>, a record is returned
  with status \<open>failure\<close>, empty report and the wrapper's prefix followed by \<open>m\<close> as error;
  when both return, a record with status \<open>success\<close> is returned; an exception that is not
  of class \<open>Exception\<close> is not caught and reaches the caller.  Every record has its
  \<open>execution_time_seconds\<close> set, to the reading of the clock made after the call (in the
  handler, when an exception is caught) minus the reading made before it, which is at least
  0 whenever the clock has not gone back between the readings.
\<close>

theorem execute_result:
  "(\<forall>m. \<exists>r. execute clock (Inl (PyException m)) = Inr r
        \<and> status r = ''failure'' \<and> report r = []
        \<and> error r = Some (''Crew execution failed: '' @ m)
        \<and> execution_time_seconds r = clock 2 - clock 1)
   \<and> (\<forall>m. \<exists>r. execute clock (Inr (Inl (PyException m))) = Inr r
        \<and> status r = ''failure'' \<and> report r = []
        \<and> error r = Some (''Crew execution failed: '' @ m)
        \<and> execution_time_seconds r = clock 3 - clock 1)
   \<and> (\<forall>text. \<exists>r. execute clock (Inr (Inr text)) = Inr r
        \<and> status r = ''success'' \<and> report r = text
        \<and> execution_time_seconds r = clock 2 - clock 1)
   \<and> (\<forall>c. execute clock (Inl (PyBaseException c)) = Inl (PyBaseException c)
        \<and> execute clock (Inr (Inl (PyBaseException c))) = Inl (PyBaseException c))
   \<and> (\<forall>k r. execute clock k = Inr r \<and> clock 1 \<le> clock 2 \<and> clock 1 \<le> clock 3 \<longrightarrow>
        0 \<le> execution_time_seconds r)
   \<and> (\<forall>m. \<exists>r. execute_async clock (Inl (PyException m)) = Inr r
        \<and> status r = ''failure'' \<and> report r = []
        \<and> error r = Some (''Async crew execution failed: '' @ m)
        \<and> execution_time_seconds r = clock 2 - clock 1)
   \<and> (\<forall>m. \<exists>r. execute_async clock (Inr (Inl (PyException m))) = Inr r
        \<and> status r = ''failure'' \<and> report r = []
        \<and> error r = Some (''Async crew execution failed: '' @ m)
        \<and> execution_time_seconds r = clock 3 - clock 1)
   \<and> (\<forall>text. \<exists>r. execute_async clock (Inr (Inr text)) = Inr r
        \<and> status r = ''success'' \<and> report r = text
        \<and> execution_time_seconds r = clock 2 - clock 1)
   \<and> (\<forall>c. execute_async clock (Inl (PyBaseException c)) = Inl (PyBaseException c)
        \<and> execute_async clock (Inr (Inl (PyBaseException c))) = Inl (PyBaseException c))
   \<and> (\<forall>k r. execute_async clock k = Inr r \<and> clock 1 \<le> clock 2 \<and> clock 1 \<le> clock 3 \<longrightarrow>
        0 \<le> execution_time_seconds r)"
proof -
  have time: "0 \<le> execution_time_seconds r"
    if "execute clock k = Inr r \<or> execute_async clock k = Inr r"
      and "clock 1 \<le> clock 2" and "clock 1 \<le> clock 3"
    for k r
    using that
    by (auto simp: execute_def execute_async_def Let_def split: sum.splits raised.splits)
  have sync: "\<forall>k r. execute clock k = Inr r \<and> clock 1 \<le> clock 2 \<and> clock 1 \<le> clock 3 \<longrightarrow>
      0 \<le> execution_time_seconds r"
    using time by blast
  have async: "\<forall>k r. execute_async clock k = Inr r \<and> clock 1 \<le> clock 2 \<and> clock 1 \<le> clock 3 \<longrightarrow>
      0 \<le> execution_time_seconds r"
    using time by blast
  show ?thesis
    by (intro conjI sync async) (simp_all add: execute_def execute_async_def Let_def)
qed

theorem execute_result_witness:
  "clock_steady 1 \<le> clock_steady 2 \<and> clock_steady 1 \<le> clock_steady 3
   \<and> (\<exists>r. execute clock_steady (Inl (PyException ''quota exceeded'')) = Inr r
        \<and> status r = ''failure''
        \<and> error r = Some ''Crew execution failed: quota exceeded''
        \<and> 0 \<le> execution_time_seconds r)
   \<and> (\<exists>r. execute_async clock_steady (Inr (Inl (PyException ''no text''))) = Inr r
        \<and> status r = ''failure''
        \<and> error r = Some ''Async crew execution failed: no text''
        \<and> execution_time_seconds r = clock_steady 3 - clock_steady 1
        \<and> 0 \<le> execution_time_seconds r)"
proof -
  have mono: "clock_steady 1 \<le> clock_steady 2" "clock_steady 1 \<le> clock_steady 3"
    by (simp_all add: clock_steady_def)
  note facts = execute_result [of clock_steady]
  from facts obtain r where r: "execute clock_steady (Inl (PyException ''quota exceeded'')) = Inr r"
    "status r = ''failure''" "error r = Some (''Crew execution failed: '' @ ''quota exceeded'')"
    by blast
  from facts r(1) mono have "0 \<le> execution_time_seconds r" by blast
  with r have 1: "\<exists>r. execute clock_steady (Inl (PyException ''quota exceeded'')) = Inr r
        \<and> status r = ''failure''
        \<and> error r = Some ''Crew execution failed: quota exceeded''
        \<and> 0 \<le> execution_time_seconds r"
    by auto
  from facts obtain q where q:
    "execute_async clock_steady (Inr (Inl (PyException ''no text''))) = Inr q"
    "status q = ''failure''" "error q = Some (''Async crew execution failed: '' @ ''no text'')"
    "execution_time_seconds q = clock_steady 3 - clock_steady 1"
    by blast
  from facts q(1) mono have "0 \<le> execution_time_seconds q" by blast
  with q have 2: "\<exists>r. execute_async clock_steady (Inr (Inl (PyException ''no text''))) = Inr r
        \<and> status r = ''failure''
        \<and> error r = Some ''Async crew execution failed: no text''
        \<and> execution_time_seconds r = clock_steady 3 - clock_steady 1
        \<and> 0 \<le> execution_time_seconds r"
    by auto
  from mono 1 2 show ?thesis by (intro conjI)
qed

text \<open>
  Claim C10.  Every record returned by \<open>execute\<close> or \<open>execute_async\<close> has status
  \<open>success\<close> or \<open>failure\<close>, never \<open>partial\<close>; with status \<open>failure\<close> the error is set and
  the report is the empty string, with status \<open>success\<close> the error is \<open>None\<close>.  A record is
  returned in every run but those in which an exception that is not of class \<open>Exception\<close>
  is raised, which return none.
\<close>

theorem execute_status:
  "(\<forall>r. execute clock kickoff = Inr r \<longrightarrow>
        (status r = ''success'' \<or> status r = ''failure'')
      \<and> status r \<noteq> ''partial''
      \<and> (status r = ''failure'' \<longrightarrow> error r \<noteq> None \<and> report r = [])
      \<and> (status r = ''success'' \<longrightarrow> error r = None))
   \<and> ((\<exists>r. execute clock kickoff = Inr r)
      \<or> (\<exists>c. execute clock kickoff = Inl (PyBaseException c)
            \<and> (kickoff = Inl (PyBaseException c) \<or> kickoff = Inr (Inl (PyBaseException c)))))
   \<and> (\<forall>r. execute_async clock kickoff = Inr r \<longrightarrow>
        (status r = ''success'' \<or> status r = ''failure'')
      \<and> status r \<noteq> ''partial''
      \<and> (status r = ''failure'' \<longrightarrow> error r \<noteq> None \<and> report r = [])
      \<and> (status r = ''success'' \<longrightarrow> error r = None))
   \<and> ((\<exists>r. execute_async clock kickoff = Inr r)
      \<or> (\<exists>c. execute_async clock kickoff = Inl (PyBaseException c)
            \<and> (kickoff = Inl (PyBaseException c) \<or> kickoff = Inr (Inl (PyBaseException c)))))"
  by (auto simp: execute_def execute_async_def Let_def split: sum.splits raised.splits)

theorem execute_status_witness:
  "(\<exists>r. execute clock_steady (Inl (PyException ''quota exceeded'')) = Inr r
        \<and> status r = ''failure'' \<and> error r \<noteq> None \<and> report r = [])
   \<and> (\<exists>r. execute_async clock_steady (Inr (Inr ''the report'')) = Inr r
        \<and> status r = ''success'' \<and> error r = None)"
proof -
  obtain r where r: "execute clock_steady (Inl (PyException ''quota exceeded'')) = Inr r"
    "status r = ''failure''"
    by (simp add: execute_def Let_def)
  from execute_status [of clock_steady "Inl (PyException ''quota exceeded'')"] r
  have "error r \<noteq> None \<and> report r = []" by blast
  with r have 1: "\<exists>r. execute clock_steady (Inl (PyException ''quota exceeded'')) = Inr r
        \<and> status r = ''failure'' \<and> error r \<noteq> None \<and> report r = []"
    by blast
  obtain q where q: "execute_async clock_steady (Inr (Inr ''the report'')) = Inr q"
    "status q = ''success''"
    by (simp add: execute_async_def Let_def)
  from execute_status [of clock_steady "Inr (Inr ''the report'')"] q
  have "error q = None" by blast
  with q have 2: "\<exists>r. execute_async clock_steady (Inr (Inr ''the report'')) = Inr r
        \<and> status r = ''success'' \<and> error r = None"
    by blast
  from 1 2 show ?thesis by (rule conjI)
qed

end
